theory Spec2Isabelle
  imports Main "HOL-Library.Multiset"
begin

section \<open>The buffer: \<^verbatim>\<open>std::queue<T> m_queue\<close>\<close>

text \<open>
  The internal buffer of \<^verbatim>\<open>blocking_queue<T>\<close> is a \<^verbatim>\<open>std::queue<T>\<close>. It is modelled
  as a list whose head is the front of the queue and whose last element is the back.
  \<^verbatim>\<open>front()\<close> and \<^verbatim>\<open>pop()\<close> of an empty \<^verbatim>\<open>std::queue\<close> are undefined behaviour: the
  model returns \<open>None\<close> there. \<^verbatim>\<open>size()\<close> returns a \<^verbatim>\<open>size_t\<close>; the number of elements
  of a container never exceeds what a \<^verbatim>\<open>size_t\<close> holds, so it is modelled as a \<open>nat\<close>.
\<close>

definition q_empty :: "'a list \<Rightarrow> bool" where
  "q_empty q = (case q of [] \<Rightarrow> True | _ # _ \<Rightarrow> False)"

definition q_size :: "'a list \<Rightarrow> nat" where
  "q_size q = length q"

definition q_push :: "'a \<Rightarrow> 'a list \<Rightarrow> 'a list" where
  "q_push elem q = q @ [elem]"

definition q_front :: "'a list \<Rightarrow> 'a option" where
  "q_front q = (case q of [] \<Rightarrow> None | x # _ \<Rightarrow> Some x)"

definition q_pop :: "'a list \<Rightarrow> 'a list option" where
  "q_pop q = (case q of [] \<Rightarrow> None | _ # xs \<Rightarrow> Some xs)"


section \<open>The monitor: \<^verbatim>\<open>blocking_queue<T>\<close>\<close>

type_synonym tid = nat

text \<open>The four public methods, as a caller invokes them, and what they return.\<close>

datatype 'a operation = Empty | Size | Push 'a | Pop

datatype 'a ret = RVoid | RBool bool | RSize nat | RElem 'a

text \<open>
  The control point of a thread. Every statement of a method body is one atomic step;
  the constructor names the statement the thread executes next.

  \<^verbatim>\<open>
  bool empty()        { std::lock_guard lock(m_mutex);        // Empty_lock
                        return m_queue.empty(); }             // Empty_return, Empty_unlock
  size_t size()       { std::lock_guard lock(m_mutex);        // Size_lock
                        return m_queue.size(); }              // Size_return, Size_unlock
  void push(const T& elem)
                      { std::lock_guard lock(m_mutex);        // Push_lock
                        m_queue.push(elem);                   // Push_push
                        m_cv.notify_one(); }                  // Push_notify, Push_unlock
  T pop()             { std::unique_lock lock(m_mutex);       // Pop_lock
                        m_cv.wait(lock, [this] { return !m_queue.empty(); });
                                                              // Pop_pred, Pop_waiting, Pop_relock
                        T elem = std::move(m_queue.front());  // Pop_front
                        m_queue.pop();                        // Pop_pop
                        return elem; }                        // Pop_unlock
  \<close>

  \<^verbatim>\<open>m_cv.wait(lock, pred)\<close> is \<^verbatim>\<open>while (!pred()) m_cv.wait(lock);\<close>: the predicate is
  evaluated with the mutex held (\<open>Pop_pred\<close>); when it is false the thread releases the
  mutex and blocks in one atomic step (\<open>Pop_waiting\<close>); once woken, by a notification or
  spuriously, it takes the mutex again (\<open>Pop_relock\<close>) and evaluates the predicate again.
\<close>

datatype 'a pc =
    Idle
  | Empty_lock
  | Empty_return
  | Empty_unlock bool
  | Size_lock
  | Size_return
  | Size_unlock nat
  | Push_lock 'a
  | Push_push 'a
  | Push_notify
  | Push_unlock
  | Pop_lock
  | Pop_pred
  | Pop_waiting
  | Pop_relock
  | Pop_front
  | Pop_pop 'a
  | Pop_unlock 'a
  | Returned "'a ret"
  | Undefined_behaviour

text \<open>
  The object and the threads that use it: the buffer, the owner of the mutex (if any),
  the threads blocked on the condition variable, and the control point of every thread.
\<close>

record 'a blocking_queue =
  m_queue :: "'a list"
  m_mutex :: "tid option"
  m_cv :: "tid set"
  threads :: "tid \<Rightarrow> 'a pc"

text \<open>\<^verbatim>\<open>blocking_queue() = default\<close>: an empty buffer, a free mutex, nobody waiting.\<close>

definition init :: "'a blocking_queue" where
  "init = \<lparr>m_queue = [], m_mutex = None, m_cv = {}, threads = (\<lambda>_. Idle)\<rparr>"

definition goto :: "tid \<Rightarrow> 'a pc \<Rightarrow> 'a blocking_queue \<Rightarrow> 'a blocking_queue" where
  "goto t p s = s\<lparr>threads := (threads s)(t := p)\<rparr>"

text \<open>Taking the mutex is possible only while nobody owns it; otherwise the thread cannot step.\<close>

definition acquire :: "tid \<Rightarrow> 'a pc \<Rightarrow> 'a blocking_queue \<Rightarrow> 'a blocking_queue option" where
  "acquire t p s =
     (case m_mutex s of
        None \<Rightarrow> Some (goto t p (s\<lparr>m_mutex := Some t\<rparr>))
      | Some _ \<Rightarrow> None)"

definition release :: "tid \<Rightarrow> 'a pc \<Rightarrow> 'a blocking_queue \<Rightarrow> 'a blocking_queue" where
  "release t p s = goto t p (s\<lparr>m_mutex := None\<rparr>)"

definition wake :: "tid \<Rightarrow> 'a blocking_queue \<Rightarrow> 'a blocking_queue" where
  "wake w s = goto w Pop_relock (s\<lparr>m_cv := m_cv s - {w}\<rparr>)"

definition enter :: "'a operation \<Rightarrow> 'a pc" where
  "enter c = (case c of Empty \<Rightarrow> Empty_lock | Size \<Rightarrow> Size_lock
                      | Push elem \<Rightarrow> Push_lock elem | Pop \<Rightarrow> Pop_lock)"

text \<open>
  What a scheduler can make happen: a thread outside the queue's methods calls one; a thread
  executes its next statement; a pushing thread's \<^verbatim>\<open>notify_one\<close> wakes the waiter \<open>w\<close>;
  a waiter wakes spuriously.
\<close>

datatype 'a event = Call tid "'a operation" | Step tid | Notify tid tid | Spurious tid

definition step_thread :: "tid \<Rightarrow> 'a blocking_queue \<Rightarrow> 'a blocking_queue option" where
  "step_thread t s =
     (case threads s t of
        Idle \<Rightarrow> None
      | Empty_lock \<Rightarrow> acquire t Empty_return s
      | Empty_return \<Rightarrow> Some (goto t (Empty_unlock (q_empty (m_queue s))) s)
      | Empty_unlock b \<Rightarrow> Some (release t (Returned (RBool b)) s)
      | Size_lock \<Rightarrow> acquire t Size_return s
      | Size_return \<Rightarrow> Some (goto t (Size_unlock (q_size (m_queue s))) s)
      | Size_unlock n \<Rightarrow> Some (release t (Returned (RSize n)) s)
      | Push_lock elem \<Rightarrow> acquire t (Push_push elem) s
      | Push_push elem \<Rightarrow> Some (goto t Push_notify (s\<lparr>m_queue := q_push elem (m_queue s)\<rparr>))
      | Push_notify \<Rightarrow> if m_cv s = {} then Some (goto t Push_unlock s) else None
      | Push_unlock \<Rightarrow> Some (release t (Returned RVoid) s)
      | Pop_lock \<Rightarrow> acquire t Pop_pred s
      | Pop_pred \<Rightarrow>
          if \<not> q_empty (m_queue s) then Some (goto t Pop_front s)
          else Some (goto t Pop_waiting (s\<lparr>m_mutex := None, m_cv := insert t (m_cv s)\<rparr>))
      | Pop_waiting \<Rightarrow> None
      | Pop_relock \<Rightarrow> acquire t Pop_pred s
      | Pop_front \<Rightarrow>
          (case q_front (m_queue s) of
             None \<Rightarrow> Some (goto t Undefined_behaviour s)
           | Some elem \<Rightarrow> Some (goto t (Pop_pop elem) s))
      | Pop_pop elem \<Rightarrow>
          (case q_pop (m_queue s) of
             None \<Rightarrow> Some (goto t Undefined_behaviour s)
           | Some q' \<Rightarrow> Some (goto t (Pop_unlock elem) (s\<lparr>m_queue := q'\<rparr>)))
      | Pop_unlock elem \<Rightarrow> Some (release t (Returned (RElem elem)) s)
      | Returned _ \<Rightarrow> None
      | Undefined_behaviour \<Rightarrow> None)"

text \<open>
  One event; \<open>None\<close> when the event is not possible in the state. \<open>Step t\<close> at
  \<^verbatim>\<open>notify_one\<close> is the case of no waiter; with waiters the event \<open>Notify t w\<close> names
  the one that is woken.
\<close>

fun step :: "'a event \<Rightarrow> 'a blocking_queue \<Rightarrow> 'a blocking_queue option" where
  "step (Call t c) s =
     (case threads s t of
        Idle \<Rightarrow> Some (goto t (enter c) s)
      | Returned _ \<Rightarrow> Some (goto t (enter c) s)
      | _ \<Rightarrow> None)"
| "step (Step t) s = step_thread t s"
| "step (Notify t w) s =
     (case threads s t of
        Push_notify \<Rightarrow> if w \<in> m_cv s then Some (goto t Push_unlock (wake w s)) else None
      | _ \<Rightarrow> None)"
| "step (Spurious w) s = (if w \<in> m_cv s then Some (wake w s) else None)"

text \<open>A schedule is a list of events; \<open>exec\<close> runs it, as far as every event is possible.\<close>

fun exec :: "'a event list \<Rightarrow> 'a blocking_queue \<Rightarrow> 'a blocking_queue option" where
  "exec [] s = Some s"
| "exec (ev # evs) s = (case step ev s of None \<Rightarrow> None | Some s' \<Rightarrow> exec evs s')"

section \<open>A thread running alone\<close>

text \<open>
  The number of statements a method executes from its call to its return when it does
  not block, and the schedule in which thread \<open>t\<close> calls a method and no other thread
  runs before the method returns.
\<close>

definition op_steps :: "'a operation \<Rightarrow> nat" where
  "op_steps c = (case c of Empty \<Rightarrow> 3 | Size \<Rightarrow> 3 | Push _ \<Rightarrow> 4 | Pop \<Rightarrow> 5)"

definition alone :: "tid \<Rightarrow> 'a operation \<Rightarrow> 'a event list" where
  "alone t c = Call t c # replicate (op_steps c) (Step t)"

text \<open>
  A call by thread \<open>t\<close> with no other thread running: the value returned and the state at
  the return, or \<open>None\<close> when the schedule \<open>alone t c\<close> cannot run to the return. That is
  so when the mutex is taken, when \<open>t\<close> is inside a call already, and for a \<^verbatim>\<open>pop\<close> that
  finds the buffer empty: it blocks, and stays blocked for ever when no other thread runs.
  It is also so for a \<^verbatim>\<open>push\<close> while threads are blocked on the condition variable: its
  \<^verbatim>\<open>notify_one\<close> then wakes one of them, which is the event \<open>Notify\<close> and not a step of
  \<open>t\<close> alone; hence the premise \<open>m_cv s = {}\<close> where a statement is about a \<^verbatim>\<open>push\<close> made
  by one thread on its own. The statements about schedules cover the other case.
\<close>

definition call :: "tid \<Rightarrow> 'a operation \<Rightarrow> 'a blocking_queue \<Rightarrow> ('a ret \<times> 'a blocking_queue) option" where
  "call t c s =
     (case exec (alone t c) s of
        None \<Rightarrow> None
      | Some s' \<Rightarrow> (case threads s' t of Returned r \<Rightarrow> Some (r, s') | _ \<Rightarrow> None))"

text \<open>A sequence of calls by one thread, each started after the one before has returned.\<close>

fun calls :: "tid \<Rightarrow> 'a operation list \<Rightarrow> 'a blocking_queue \<Rightarrow> ('a ret list \<times> 'a blocking_queue) option" where
  "calls t [] s = Some ([], s)"
| "calls t (c # cs) s =
     (case call t c s of
        None \<Rightarrow> None
      | Some (r, s') \<Rightarrow>
          (case calls t cs s' of None \<Rightarrow> None | Some (rs, s'') \<Rightarrow> Some (r # rs, s'')))"


section \<open>Predicates and histories used in the statements\<close>

text \<open>A thread is outside the queue's methods when it has not called one or has returned.\<close>

definition outside :: "'a pc \<Rightarrow> bool" where
  "outside p = (case p of Idle \<Rightarrow> True | Returned _ \<Rightarrow> True | _ \<Rightarrow> False)"

text \<open>Thread \<open>t\<close> can call a method and run it alone: the mutex is free and \<open>t\<close> is outside.\<close>

definition ready :: "tid \<Rightarrow> 'a blocking_queue \<Rightarrow> bool" where
  "ready t s \<longleftrightarrow> m_mutex s = None \<and> outside (threads s t)"

text \<open>
  The control points between the construction of a \<^verbatim>\<open>lock_guard\<close>/\<^verbatim>\<open>unique_lock\<close> and its
  destruction, the wait inside \<^verbatim>\<open>m_cv.wait\<close> excepted: there the thread owns the mutex.
\<close>

definition holds_mutex :: "'a pc \<Rightarrow> bool" where
  "holds_mutex p =
     (case p of
        Empty_return \<Rightarrow> True | Empty_unlock _ \<Rightarrow> True
      | Size_return \<Rightarrow> True | Size_unlock _ \<Rightarrow> True
      | Push_push _ \<Rightarrow> True | Push_notify \<Rightarrow> True | Push_unlock \<Rightarrow> True
      | Pop_pred \<Rightarrow> True | Pop_front \<Rightarrow> True | Pop_pop _ \<Rightarrow> True | Pop_unlock _ \<Rightarrow> True
      | _ \<Rightarrow> False)"

text \<open>
  What holds of every thread in every state that a schedule reaches from \<open>init\<close>: a thread
  inside a locked region owns the mutex; a thread registered on the condition variable is
  blocked in the wait; a thread about to read the front sees a non-empty buffer; a thread about
  to remove the front has read exactly that front; no thread has run into undefined behaviour.
\<close>

definition thread_ok :: "'a blocking_queue \<Rightarrow> tid \<Rightarrow> bool" where
  "thread_ok s t \<longleftrightarrow>
     (holds_mutex (threads s t) \<longrightarrow> m_mutex s = Some t) \<and>
     (t \<in> m_cv s \<longrightarrow> threads s t = Pop_waiting) \<and>
     (threads s t = Pop_front \<longrightarrow> \<not> q_empty (m_queue s)) \<and>
     (\<forall>elem. threads s t = Pop_pop elem \<longrightarrow> q_front (m_queue s) = Some elem) \<and>
     threads s t \<noteq> Undefined_behaviour"

definition consistent :: "'a blocking_queue \<Rightarrow> bool" where
  "consistent s \<longleftrightarrow> (\<forall>t. thread_ok s t)"

text \<open>
  The history of a schedule. A thread at \<open>Push_push elem\<close> inserts \<open>elem\<close> with its next
  step; a thread at \<open>Pop_unlock elem\<close> returns \<open>elem\<close> from \<^verbatim>\<open>pop\<close> with its next step.
  \<open>pushed\<close> lists the elements inserted along a schedule, in the order of the insertions;
  \<open>popped\<close> lists the elements returned by \<^verbatim>\<open>pop\<close>, in the order of the returns.
  \<open>held\<close> is the element that the owner of the mutex has removed and not yet returned.
\<close>

definition inserting :: "'a pc \<Rightarrow> 'a list" where
  "inserting p = (case p of Push_push elem \<Rightarrow> [elem] | _ \<Rightarrow> [])"

definition returning :: "'a pc \<Rightarrow> 'a list" where
  "returning p = (case p of Pop_unlock elem \<Rightarrow> [elem] | _ \<Rightarrow> [])"

definition inserted :: "'a event \<Rightarrow> 'a blocking_queue \<Rightarrow> 'a list" where
  "inserted ev s = (case ev of Step t \<Rightarrow> inserting (threads s t) | _ \<Rightarrow> [])"

definition returned :: "'a event \<Rightarrow> 'a blocking_queue \<Rightarrow> 'a list" where
  "returned ev s = (case ev of Step t \<Rightarrow> returning (threads s t) | _ \<Rightarrow> [])"

fun pushed :: "'a event list \<Rightarrow> 'a blocking_queue \<Rightarrow> 'a list" where
  "pushed [] s = []"
| "pushed (ev # evs) s =
     (case step ev s of None \<Rightarrow> [] | Some s' \<Rightarrow> inserted ev s @ pushed evs s')"

fun popped :: "'a event list \<Rightarrow> 'a blocking_queue \<Rightarrow> 'a list" where
  "popped [] s = []"
| "popped (ev # evs) s =
     (case step ev s of None \<Rightarrow> [] | Some s' \<Rightarrow> returned ev s @ popped evs s')"

definition held :: "'a blocking_queue \<Rightarrow> 'a list" where
  "held s = (case m_mutex s of None \<Rightarrow> [] | Some t \<Rightarrow> returning (threads s t))"

text \<open>
  A thread at \<open>Pop_pop elem\<close> removes the front of the buffer with its next step; \<open>elem\<close> is
  what it read as the front and will return.
\<close>

definition removing :: "'a pc \<Rightarrow> 'a list" where
  "removing p = (case p of Pop_pop elem \<Rightarrow> [elem] | _ \<Rightarrow> [])"

definition removed :: "'a event \<Rightarrow> 'a blocking_queue \<Rightarrow> 'a list" where
  "removed ev s = (case ev of Step t \<Rightarrow> removing (threads s t) | _ \<Rightarrow> [])"

text \<open>The control points of \<^verbatim>\<open>empty()\<close> and \<^verbatim>\<open>size()\<close>.\<close>

definition observing :: "'a pc \<Rightarrow> bool" where
  "observing p =
     (case p of
        Empty_lock \<Rightarrow> True | Empty_return \<Rightarrow> True | Empty_unlock _ \<Rightarrow> True
      | Size_lock \<Rightarrow> True | Size_return \<Rightarrow> True | Size_unlock _ \<Rightarrow> True
      | _ \<Rightarrow> False)"

text \<open>
  For a sequence of calls by one thread: the elements it pushes, in the order of the calls,
  and the elements its calls of \<^verbatim>\<open>pop\<close> return, in the order of the returns.
\<close>

fun pushes_of :: "'a operation list \<Rightarrow> 'a list" where
  "pushes_of [] = []"
| "pushes_of (Push elem # cs) = elem # pushes_of cs"
| "pushes_of (_ # cs) = pushes_of cs"

fun elems_of :: "'a ret list \<Rightarrow> 'a list" where
  "elems_of [] = []"
| "elems_of (RElem elem # rs) = elem # elems_of rs"
| "elems_of (_ # rs) = elems_of rs"




section \<open>Unfolding the model\<close>

lemmas step_defs = step_thread_def acquire_def release_def goto_def wake_def enter_def
  q_empty_def q_size_def q_push_def q_front_def q_pop_def

lemmas run_defs = call_def alone_def op_steps_def eval_nat_numeral

lemma holds_mutex_simps [simp]:
  "\<not> holds_mutex Idle" "\<not> holds_mutex Empty_lock" "holds_mutex Empty_return"
  "holds_mutex (Empty_unlock b)" "\<not> holds_mutex Size_lock" "holds_mutex Size_return"
  "holds_mutex (Size_unlock n)" "\<not> holds_mutex (Push_lock e)" "holds_mutex (Push_push e)"
  "holds_mutex Push_notify" "holds_mutex Push_unlock" "\<not> holds_mutex Pop_lock"
  "holds_mutex Pop_pred" "\<not> holds_mutex Pop_waiting" "\<not> holds_mutex Pop_relock"
  "holds_mutex Pop_front" "holds_mutex (Pop_pop e)" "holds_mutex (Pop_unlock e)"
  "\<not> holds_mutex (Returned r)" "\<not> holds_mutex Undefined_behaviour"
  by (simp_all add: holds_mutex_def)

lemma inserting_simps [simp]:
  "inserting Idle = []" "inserting Empty_lock = []" "inserting Empty_return = []"
  "inserting (Empty_unlock b) = []" "inserting Size_lock = []" "inserting Size_return = []"
  "inserting (Size_unlock n) = []" "inserting (Push_lock e) = []" "inserting (Push_push e) = [e]"
  "inserting Push_notify = []" "inserting Push_unlock = []" "inserting Pop_lock = []"
  "inserting Pop_pred = []" "inserting Pop_waiting = []" "inserting Pop_relock = []"
  "inserting Pop_front = []" "inserting (Pop_pop e) = []" "inserting (Pop_unlock e) = []"
  "inserting (Returned r) = []" "inserting Undefined_behaviour = []"
  by (simp_all add: inserting_def)

lemma returning_simps [simp]:
  "returning Idle = []" "returning Empty_lock = []" "returning Empty_return = []"
  "returning (Empty_unlock b) = []" "returning Size_lock = []" "returning Size_return = []"
  "returning (Size_unlock n) = []" "returning (Push_lock e) = []" "returning (Push_push e) = []"
  "returning Push_notify = []" "returning Push_unlock = []" "returning Pop_lock = []"
  "returning Pop_pred = []" "returning Pop_waiting = []" "returning Pop_relock = []"
  "returning Pop_front = []" "returning (Pop_pop e) = []" "returning (Pop_unlock e) = [e]"
  "returning (Returned r) = []" "returning Undefined_behaviour = []"
  by (simp_all add: returning_def)

lemma init_simps [simp]:
  "m_queue init = []" "m_mutex init = None" "m_cv init = {}" "threads init t = Idle"
  by (simp_all add: init_def)

lemma removing_simps [simp]:
  "removing Idle = []" "removing Empty_lock = []" "removing Empty_return = []"
  "removing (Empty_unlock b) = []" "removing Size_lock = []" "removing Size_return = []"
  "removing (Size_unlock n) = []" "removing (Push_lock e) = []" "removing (Push_push e) = []"
  "removing Push_notify = []" "removing Push_unlock = []" "removing Pop_lock = []"
  "removing Pop_pred = []" "removing Pop_waiting = []" "removing Pop_relock = []"
  "removing Pop_front = []" "removing (Pop_pop e) = [e]" "removing (Pop_unlock e) = []"
  "removing (Returned r) = []" "removing Undefined_behaviour = []"
  by (simp_all add: removing_def)

lemma returning_enter [simp]: "returning (enter c) = []"
  by (cases c) (simp_all add: enter_def)

lemma goto_simps [simp]:
  "m_queue (goto t p s) = m_queue s" "m_mutex (goto t p s) = m_mutex s"
  "m_cv (goto t p s) = m_cv s" "threads (goto t p s) t = p"
  "u \<noteq> t \<Longrightarrow> threads (goto t p s) u = threads s u"
  by (simp_all add: goto_def)


section \<open>One thread alone: what each method returns and how it leaves the queue\<close>

lemma call_Empty:
  assumes "ready t s"
  shows "call t Empty s =
           Some (RBool (q_empty (m_queue s)), goto t (Returned (RBool (q_empty (m_queue s)))) s)"
proof -
  obtain q mx cv th where s: "s = \<lparr>m_queue = q, m_mutex = mx, m_cv = cv, threads = th\<rparr>"
    by (cases s) simp
  from assms show ?thesis
    by (auto simp: s ready_def outside_def run_defs step_defs split: pc.splits)
qed

lemma call_Size:
  assumes "ready t s"
  shows "call t Size s =
           Some (RSize (q_size (m_queue s)), goto t (Returned (RSize (q_size (m_queue s)))) s)"
proof -
  obtain q mx cv th where s: "s = \<lparr>m_queue = q, m_mutex = mx, m_cv = cv, threads = th\<rparr>"
    by (cases s) simp
  from assms show ?thesis
    by (auto simp: s ready_def outside_def run_defs step_defs split: pc.splits)
qed

lemma call_Push:
  assumes "ready t s" "m_cv s = {}"
  shows "call t (Push e) s =
           Some (RVoid, goto t (Returned RVoid) (s\<lparr>m_queue := m_queue s @ [e]\<rparr>))"
proof -
  obtain q mx cv th where s: "s = \<lparr>m_queue = q, m_mutex = mx, m_cv = cv, threads = th\<rparr>"
    by (cases s) simp
  from assms show ?thesis
    by (auto simp: s ready_def outside_def run_defs step_defs split: pc.splits)
qed

lemma call_Pop:
  assumes "ready t s" "m_queue s = x # xs"
  shows "call t Pop s = Some (RElem x, goto t (Returned (RElem x)) (s\<lparr>m_queue := xs\<rparr>))"
proof -
  obtain q mx cv th where s: "s = \<lparr>m_queue = q, m_mutex = mx, m_cv = cv, threads = th\<rparr>"
    by (cases s) simp
  from assms show ?thesis
    by (auto simp: s ready_def outside_def run_defs step_defs split: pc.splits)
qed

lemma call_Pop_blocks:
  assumes "ready t s" "m_queue s = []"
  shows "call t Pop s = None"
proof -
  obtain q mx cv th where s: "s = \<lparr>m_queue = q, m_mutex = mx, m_cv = cv, threads = th\<rparr>"
    by (cases s) simp
  from assms show ?thesis
    by (auto simp: s ready_def outside_def run_defs step_defs split: pc.splits)
qed

lemma ready_goto_Returned [simp]: "ready t (goto t (Returned r) s) = (m_mutex s = None)"
  by (simp add: ready_def outside_def)

lemma ready_init [simp]: "ready t init"
  by (simp add: ready_def outside_def init_def)

lemma calls_append:
  "calls t (cs @ ds) s =
     (case calls t cs s of
        None \<Rightarrow> None
      | Some (rs, s') \<Rightarrow>
          (case calls t ds s' of None \<Rightarrow> None | Some (rs', s'') \<Rightarrow> Some (rs @ rs', s'')))"
  by (induction cs arbitrary: s) (auto split: option.splits)

lemma calls_Push:
  assumes "ready t s" "m_cv s = {}"
  shows "\<exists>s'. calls t (map Push es) s = Some (replicate (length es) RVoid, s')
            \<and> m_queue s' = m_queue s @ es \<and> ready t s' \<and> m_cv s' = {}"
  using assms
proof (induction es arbitrary: s)
  case Nil
  then show ?case by simp
next
  case (Cons e es)
  let ?s1 = "goto t (Returned RVoid) (s\<lparr>m_queue := m_queue s @ [e]\<rparr>)"
  from Cons.prems have c: "call t (Push e) s = Some (RVoid, ?s1)" by (rule call_Push)
  from Cons.prems have "ready t ?s1" "m_cv ?s1 = {}" by (simp_all add: ready_def outside_def)
  from Cons.IH [OF this] obtain s' where
    "calls t (map Push es) ?s1 = Some (replicate (length es) RVoid, s')"
    "m_queue s' = m_queue ?s1 @ es" "ready t s'" "m_cv s' = {}" by blast
  with c show ?case by simp
qed

lemma calls_Pop:
  assumes "ready t s" "m_queue s = es @ rest"
  shows "\<exists>s'. calls t (replicate (length es) Pop) s = Some (map RElem es, s')
            \<and> m_queue s' = rest \<and> ready t s' \<and> m_cv s' = m_cv s"
  using assms
proof (induction es arbitrary: s)
  case Nil
  then show ?case by simp
next
  case (Cons e es)
  let ?s1 = "goto t (Returned (RElem e)) (s\<lparr>m_queue := es @ rest\<rparr>)"
  from Cons.prems have c: "call t Pop s = Some (RElem e, ?s1)" by (simp add: call_Pop)
  from Cons.prems have "ready t ?s1" "m_queue ?s1 = es @ rest"
    by (simp_all add: ready_def outside_def)
  from Cons.IH [OF this] obtain s' where
    "calls t (replicate (length es) Pop) ?s1 = Some (map RElem es, s')"
    "m_queue s' = rest" "ready t s'" "m_cv s' = m_cv ?s1" by blast
  with c show ?case by simp
qed


section \<open>All threads together: what every schedule preserves\<close>

lemma consistent_init: "consistent init"
  by (simp add: consistent_def thread_ok_def init_def)

lemma thread_ok_step_self:
  assumes "thread_ok s t" "step_thread t s = Some s'"
  shows "thread_ok s' t"
  using assms
  by (cases "threads s t")
     (auto simp: thread_ok_def step_defs split: option.splits if_splits list.splits)

lemma thread_ok_step_other:
  assumes "thread_ok s t" "thread_ok s u" "u \<noteq> t" "step_thread t s = Some s'"
  shows "thread_ok s' u"
  using assms
  by (cases "threads s t")
     (auto simp: thread_ok_def step_defs split: option.splits if_splits list.splits)

lemma thread_ok_call:
  assumes "thread_ok s u" "step (Call t c) s = Some s'"
  shows "thread_ok s' u"
  using assms
  by (cases c; cases "threads s t")
     (auto simp: thread_ok_def step_defs split: if_splits)

lemma thread_ok_notify:
  assumes "thread_ok s t" "thread_ok s w" "thread_ok s u" "step (Notify t w) s = Some s'"
  shows "thread_ok s' u"
  using assms
  by (cases "threads s t")
     (auto simp: thread_ok_def step_defs split: if_splits)

lemma thread_ok_spurious:
  assumes "thread_ok s w" "thread_ok s u" "step (Spurious w) s = Some s'"
  shows "thread_ok s' u"
  using assms
  by (auto simp: thread_ok_def step_defs split: if_splits)

lemma consistent_step:
  assumes "consistent s" "step ev s = Some s'"
  shows "consistent s'"
  unfolding consistent_def
proof
  fix u
  from assms(1) have ok: "\<And>t. thread_ok s t" by (simp add: consistent_def)
  show "thread_ok s' u"
  proof (cases ev)
    case (Call t c)
    with assms(2) ok show ?thesis by (blast intro: thread_ok_call)
  next
    case (Step t)
    with assms(2) have "step_thread t s = Some s'" by simp
    then show ?thesis
      using ok thread_ok_step_self thread_ok_step_other by (cases "u = t") blast+
  next
    case (Notify t w)
    with assms(2) ok show ?thesis by (blast intro: thread_ok_notify)
  next
    case (Spurious w)
    with assms(2) ok show ?thesis by (blast intro: thread_ok_spurious)
  qed
qed

lemma consistent_exec:
  "consistent s \<Longrightarrow> exec sched s = Some s' \<Longrightarrow> consistent s'"
  by (induction sched arbitrary: s) (auto split: option.splits dest: consistent_step)

lemma history_step_thread:
  assumes "thread_ok s t" "step_thread t s = Some s'"
  shows "held s @ m_queue s @ inserting (threads s t)
           = returning (threads s t) @ held s' @ m_queue s'"
  using assms
  by (cases "threads s t")
     (auto simp: thread_ok_def held_def step_defs split: option.splits if_splits list.splits)

lemma history_call:
  assumes "step (Call t c) s = Some s'"
  shows "held s' = held s \<and> m_queue s' = m_queue s"
  using assms
  by (cases "threads s t") (auto simp: held_def goto_def split: option.splits)

lemma history_notify:
  assumes "thread_ok s t" "thread_ok s w" "step (Notify t w) s = Some s'"
  shows "held s' = held s \<and> m_queue s' = m_queue s"
  using assms
  by (cases "threads s t")
     (auto simp: thread_ok_def held_def goto_def wake_def split: option.splits if_splits)

lemma history_spurious:
  assumes "thread_ok s w" "step (Spurious w) s = Some s'"
  shows "held s' = held s \<and> m_queue s' = m_queue s"
  using assms
  by (auto simp: thread_ok_def held_def goto_def wake_def split: option.splits if_splits)

lemma history_step:
  assumes "consistent s" "step ev s = Some s'"
  shows "held s @ m_queue s @ inserted ev s = returned ev s @ held s' @ m_queue s'"
proof -
  from assms(1) have ok: "\<And>t. thread_ok s t" by (simp add: consistent_def)
  show ?thesis
  proof (cases ev)
    case (Call t c)
    with assms(2) history_call [of t c s s'] show ?thesis
      by (simp add: inserted_def returned_def)
  next
    case (Step t)
    with assms(2) history_step_thread [OF ok, of t s'] show ?thesis
      by (simp add: inserted_def returned_def)
  next
    case (Notify t w)
    with assms(2) history_notify [OF ok ok, of t w s'] show ?thesis
      by (simp add: inserted_def returned_def)
  next
    case (Spurious w)
    with assms(2) history_spurious [OF ok, of w s'] show ?thesis
      by (simp add: inserted_def returned_def)
  qed
qed

lemma history_exec:
  assumes "consistent s" "exec sched s = Some s'"
  shows "held s @ m_queue s @ pushed sched s = popped sched s @ held s' @ m_queue s'"
  using assms
proof (induction sched arbitrary: s)
  case Nil
  then show ?case by simp
next
  case (Cons ev evs)
  from Cons.prems(2) obtain s1 where s1: "step ev s = Some s1" and rest: "exec evs s1 = Some s'"
    by (auto split: option.splits)
  from Cons.prems(1) s1 have c1: "consistent s1" by (rule consistent_step)
  have "held s @ m_queue s @ pushed (ev # evs) s
          = (held s @ m_queue s @ inserted ev s) @ pushed evs s1"
    using s1 by simp
  also have "\<dots> = returned ev s @ (held s1 @ m_queue s1 @ pushed evs s1)"
    using history_step [OF Cons.prems(1) s1] by simp
  also have "\<dots> = returned ev s @ popped evs s1 @ held s' @ m_queue s'"
    using Cons.IH [OF c1 rest] by simp
  finally show ?case using s1 by simp
qed

lemma history_init:
  assumes "exec sched init = Some s"
  shows "pushed sched init = popped sched init @ held s @ m_queue s"
  using history_exec [OF consistent_init assms] by (simp add: held_def init_def)

lemma buffer_step_thread:
  assumes "thread_ok s t" "step_thread t s = Some s'"
  shows "m_queue s @ inserting (threads s t) = removing (threads s t) @ m_queue s'"
  using assms
  by (cases "threads s t")
     (auto simp: thread_ok_def step_defs split: option.splits if_splits list.splits)

lemma buffer_step:
  assumes "consistent s" "step ev s = Some s'"
  shows "m_queue s @ inserted ev s = removed ev s @ m_queue s'"
proof -
  from assms(1) have ok: "\<And>t. thread_ok s t" by (simp add: consistent_def)
  show ?thesis
  proof (cases ev)
    case (Call t c)
    with assms(2) history_call [of t c s s'] show ?thesis
      by (simp add: inserted_def removed_def)
  next
    case (Step t)
    with assms(2) buffer_step_thread [OF ok, of t s'] show ?thesis
      by (simp add: inserted_def removed_def)
  next
    case (Notify t w)
    with assms(2) history_notify [OF ok ok, of t w s'] show ?thesis
      by (simp add: inserted_def removed_def)
  next
    case (Spurious w)
    with assms(2) history_spurious [OF ok, of w s'] show ?thesis
      by (simp add: inserted_def removed_def)
  qed
qed

lemma observing_step:
  assumes "observing (threads s t)" "step_thread t s = Some s'"
  shows "m_queue s' = m_queue s \<and> m_cv s' = m_cv s"
  using assms
  by (cases "threads s t") (auto simp: observing_def step_defs split: option.splits)

lemma step_thread_other:
  assumes "step_thread u s = Some s'" "t \<noteq> u"
  shows "threads s' t = threads s t"
  using assms
  by (cases "threads s u") (auto simp: step_defs split: option.splits if_splits)

lemma enters_removal:
  assumes "step ev s = Some s'" "threads s t \<noteq> Pop_front" "threads s' t = Pop_front"
  shows "ev = Step t \<and> threads s t = Pop_pred \<and> \<not> q_empty (m_queue s)"
proof (cases ev)
  case (Call u c)
  with assms show ?thesis
    by (cases c; cases "threads s u") (auto simp: goto_def enter_def split: if_splits)
next
  case (Step u)
  show ?thesis
  proof (cases "u = t")
    case True
    with Step assms show ?thesis
      by (cases "threads s t") (auto simp: step_defs split: option.splits if_splits)
  next
    case False
    with Step assms step_thread_other [of u s s' t] show ?thesis by simp
  qed
next
  case (Notify u w)
  with assms show ?thesis
    by (cases "threads s u") (auto simp: goto_def wake_def split: if_splits)
next
  case (Spurious w)
  with assms show ?thesis by (auto simp: goto_def wake_def split: if_splits)
qed

lemma leaves_relock:
  assumes "step ev s = Some s'" "threads s t = Pop_relock" "threads s' t \<noteq> Pop_relock"
  shows "ev = Step t \<and> threads s' t = Pop_pred"
proof (cases ev)
  case (Call u c)
  with assms show ?thesis
    by (cases c; cases "threads s u") (auto simp: goto_def enter_def split: if_splits)
next
  case (Step u)
  show ?thesis
  proof (cases "u = t")
    case True
    with Step assms show ?thesis
      by (auto simp: step_defs split: option.splits if_splits)
  next
    case False
    with Step assms step_thread_other [of u s s' t] show ?thesis by simp
  qed
next
  case (Notify u w)
  with assms show ?thesis
    by (cases "threads s u") (auto simp: goto_def wake_def split: if_splits)
next
  case (Spurious w)
  with assms show ?thesis by (auto simp: goto_def wake_def split: if_splits)
qed

lemma calls_history:
  assumes "ready t s" "m_cv s = {}" "calls t cs s = Some (rs, s')"
  shows "m_queue s @ pushes_of cs = elems_of rs @ m_queue s'"
  using assms
proof (induction cs arbitrary: s rs)
  case Nil
  then show ?case by simp
next
  case (Cons c cs)
  from Cons.prems(3) obtain r s1 rs1 where
    c: "call t c s = Some (r, s1)" and cs: "calls t cs s1 = Some (rs1, s')" and rs: "rs = r # rs1"
    by (auto split: option.splits prod.splits)
  show ?case
  proof (cases c)
    case Empty
    with c Cons.prems(1,2)
    have "ready t s1" "m_cv s1 = {}" "m_queue s1 = m_queue s" "\<exists>b. r = RBool b"
      by (auto simp: call_Empty ready_def outside_def)
    with Cons.IH [OF this(1,2) cs] Empty rs show ?thesis by auto
  next
    case Size
    with c Cons.prems(1,2)
    have "ready t s1" "m_cv s1 = {}" "m_queue s1 = m_queue s" "\<exists>n. r = RSize n"
      by (auto simp: call_Size ready_def outside_def)
    with Cons.IH [OF this(1,2) cs] Size rs show ?thesis by auto
  next
    case (Push e)
    with c Cons.prems(1,2)
    have "ready t s1" "m_cv s1 = {}" "m_queue s1 = m_queue s @ [e]" "r = RVoid"
      by (auto simp: call_Push ready_def outside_def)
    with Cons.IH [OF this(1,2) cs] Push rs show ?thesis by simp
  next
    case Pop
    show ?thesis
    proof (cases "m_queue s")
      case Nil
      with c Pop Cons.prems(1) show ?thesis by (simp add: call_Pop_blocks)
    next
      case (Cons x xs)
      with c Pop \<open>ready t s\<close> \<open>m_cv s = {}\<close>
      have "ready t s1" "m_cv s1 = {}" "m_queue s1 = xs" "r = RElem x"
        by (auto simp: call_Pop ready_def outside_def)
      with Cons.IH [OF this(1,2) cs] Pop rs Cons show ?thesis by simp
    qed
  qed
qed


section \<open>The claims\<close>

subsection \<open>First in, first out\<close>

text \<open>
  C1 (FIFO order). A thread that makes the calls \<^verbatim>\<open>push(e1)\<close>, ..., \<^verbatim>\<open>push(en)\<close> on an empty
  queue (the fresh queue is one), with no \<^verbatim>\<open>pop\<close> in between, and then \<open>n\<close> calls of
  \<^verbatim>\<open>pop()\<close>, gets \<open>e1\<close>, ..., \<open>en\<close> back in that order; after the pushes the buffer is
  \<open>e1, ..., en\<close>. And in every state that any schedule of any threads reaches from the fresh
  queue, the elements inserted so far, in the order of insertion, are the elements already
  returned by \<^verbatim>\<open>pop\<close>, then the element just removed and not yet returned (if there is
  one), then the buffer from front to back.
\<close>

theorem fifo_order:
  "(ready t s0 \<and> m_cv s0 = {} \<and> m_queue s0 = [] \<longrightarrow>
      map_option fst (calls t (map Push es @ replicate (length es) Pop) s0)
        = Some (replicate (length es) RVoid @ map RElem es) \<and>
      map_option (m_queue \<circ> snd) (calls t (map Push es) s0) = Some es) \<and>
   (exec sched (init :: 'a blocking_queue) = Some s \<longrightarrow>
      pushed sched init = popped sched init @ held s @ m_queue s)"
proof -
  have seq: "map_option fst (calls t (map Push es @ replicate (length es) Pop) s0)
        = Some (replicate (length es) RVoid @ map RElem es) \<and>
      map_option (m_queue \<circ> snd) (calls t (map Push es) s0) = Some es"
    if "ready t s0" "m_cv s0 = {}" "m_queue s0 = []"
  proof -
    from calls_Push [OF that(1,2), of es] that(3) obtain s1 where
      s1: "calls t (map Push es) s0 = Some (replicate (length es) RVoid, s1)"
        "m_queue s1 = es" "ready t s1"
      by auto
    from calls_Pop [of t s1 es "[]"] s1 obtain s2 where
      s2: "calls t (replicate (length es) Pop) s1 = Some (map RElem es, s2)"
      by auto
    from s1 s2 show ?thesis by (simp add: calls_append)
  qed
  from seq history_init [of sched s] show ?thesis by blast
qed

theorem fifo_order_witness:
  "ready 0 (init :: nat blocking_queue) \<and> m_cv (init :: nat blocking_queue) = {} \<and>
   m_queue (init :: nat blocking_queue) = [] \<and>
   map_option fst (calls 0 (map Push [7, 8, 9] @ replicate (length [7, 8, 9 :: nat]) Pop)
      (init :: nat blocking_queue))
     = Some [RVoid, RVoid, RVoid, RElem 7, RElem 8, RElem 9] \<and>
   exec
     [Call 0 (Push 7), Step 0, Step 0, Step 0, Step 0,
      Call 0 (Push 8), Step 0, Step 0, Call 2 Pop, Step 0, Step 0,
      Step 2, Step 2, Call 0 (Push 9), Step 2, Step 2, Step 2,
      Step 0, Step 0, Call 1 Pop, Step 0, Step 0,
      Step 1, Step 1, Step 1, Step 1]
     (init :: nat blocking_queue)
   = Some
     \<lparr>m_queue = [9], m_mutex = Some 1, m_cv = {},
      threads = (\<lambda>_. Idle)(0 := Returned RVoid, 1 := Pop_unlock 8, 2 := Returned (RElem 7))\<rparr> \<and>
   pushed
     [Call 0 (Push 7), Step 0, Step 0, Step 0, Step 0,
      Call 0 (Push 8), Step 0, Step 0, Call 2 Pop, Step 0, Step 0,
      Step 2, Step 2, Call 0 (Push 9), Step 2, Step 2, Step 2,
      Step 0, Step 0, Call 1 Pop, Step 0, Step 0,
      Step 1, Step 1, Step 1, Step 1]
     (init :: nat blocking_queue) = [7, 8, 9] \<and>
   popped
     [Call 0 (Push 7), Step 0, Step 0, Step 0, Step 0,
      Call 0 (Push 8), Step 0, Step 0, Call 2 Pop, Step 0, Step 0,
      Step 2, Step 2, Call 0 (Push 9), Step 2, Step 2, Step 2,
      Step 0, Step 0, Call 1 Pop, Step 0, Step 0,
      Step 1, Step 1, Step 1, Step 1]
     (init :: nat blocking_queue) = [7] \<and>
   held
     \<lparr>m_queue = [9], m_mutex = Some 1, m_cv = {},
      threads = (\<lambda>_. Idle)(0 := Returned RVoid, 1 := Pop_unlock 8, 2 := Returned (RElem 7))\<rparr>
     = [8 :: nat]"
  using fifo_order [of 0 "init :: nat blocking_queue" "[7, 8, 9]"
     "[Call 0 (Push 7), Step 0, Step 0, Step 0, Step 0,
      Call 0 (Push 8), Step 0, Step 0, Call 2 Pop, Step 0, Step 0,
      Step 2, Step 2, Call 0 (Push 9), Step 2, Step 2, Step 2,
      Step 0, Step 0, Call 1 Pop, Step 0, Step 0,
      Step 1, Step 1, Step 1, Step 1]"
     "\<lparr>m_queue = [9], m_mutex = Some 1, m_cv = {},
      threads = (\<lambda>_. Idle)(0 := Returned RVoid, 1 := Pop_unlock 8, 2 := Returned (RElem 7))\<rparr>"]
  by (simp add: init_def ready_def outside_def step_defs held_def inserted_def returned_def
        fun_upd_twist)


subsection \<open>Nothing lost, nothing duplicated\<close>

text \<open>
  C2 (no loss, no duplication). In every state that any schedule of any threads reaches, the
  multiset of the elements inserted by \<^verbatim>\<open>push\<close> is the multiset of the elements returned by
  \<^verbatim>\<open>pop\<close>, plus the element just removed and not yet returned, plus the buffer; so when as
  many elements have been returned as have been pushed, the multiset returned is exactly the
  multiset pushed. The same for any sequence of calls made by one thread on a fresh queue:
  the elements its calls of \<^verbatim>\<open>pop\<close> return and the buffer together are the elements it
  pushed, and with as many elements returned as pushed the two multisets are equal.
\<close>

theorem no_loss_no_duplication:
  "(exec sched (init :: 'a blocking_queue) = Some s \<longrightarrow>
      mset (pushed sched init) = mset (popped sched init) + mset (held s) + mset (m_queue s) \<and>
      (length (popped sched init) = length (pushed sched init) \<longrightarrow>
         mset (popped sched init) = mset (pushed sched init))) \<and>
   (calls t cs (init :: 'a blocking_queue) = Some (rs, s') \<longrightarrow>
      mset (pushes_of cs) = mset (elems_of rs) + mset (m_queue s') \<and>
      (length (elems_of rs) = length (pushes_of cs) \<longrightarrow>
         mset (elems_of rs) = mset (pushes_of cs)))"
proof -
  have conc: "mset (pushed sched init) = mset (popped sched init) + mset (held s) + mset (m_queue s) \<and>
      (length (popped sched init) = length (pushed sched init) \<longrightarrow>
         mset (popped sched init) = mset (pushed sched init))"
    if "exec sched (init :: 'a blocking_queue) = Some s"
  proof -
    from that have h: "pushed sched init = popped sched init @ held s @ m_queue s"
      by (rule history_init)
    then have "mset (pushed sched init) = mset (popped sched init @ held s @ m_queue s)"
      by simp
    moreover have "held s @ m_queue s = []"
      if "length (popped sched init) = length (pushed sched init)"
      using h that by (metis append_self_conv length_append add_diff_cancel_left' length_0_conv)
    ultimately show ?thesis using h by auto
  qed
  have seq: "mset (pushes_of cs) = mset (elems_of rs) + mset (m_queue s') \<and>
      (length (elems_of rs) = length (pushes_of cs) \<longrightarrow>
         mset (elems_of rs) = mset (pushes_of cs))"
    if "calls t cs (init :: 'a blocking_queue) = Some (rs, s')"
  proof -
    have "m_queue (init :: 'a blocking_queue) @ pushes_of cs = elems_of rs @ m_queue s'"
      using that by (intro calls_history [of t]) simp_all
    then have h: "pushes_of cs = elems_of rs @ m_queue s'" by simp
    then have "mset (pushes_of cs) = mset (elems_of rs @ m_queue s')" by simp
    moreover have "m_queue s' = []" if "length (elems_of rs) = length (pushes_of cs)"
      using h that by (metis append_self_conv length_append add_diff_cancel_left' length_0_conv)
    ultimately show ?thesis using h by auto
  qed
  from conc seq show ?thesis by blast
qed

theorem no_loss_no_duplication_witness:
  "exec
     [Call 0 (Push 7), Step 0, Step 0, Step 0, Step 0,
      Call 0 (Push 8), Step 0, Step 0, Call 2 Pop, Step 0, Step 0,
      Step 2, Step 2, Call 1 Pop, Step 2, Step 2, Step 2,
      Step 1, Step 1, Step 1, Step 1, Step 1]
     (init :: nat blocking_queue)
   = Some
     \<lparr>m_queue = [], m_mutex = None, m_cv = {},
      threads = (\<lambda>_. Idle)(0 := Returned RVoid, 1 := Returned (RElem 8), 2 := Returned (RElem 7))\<rparr> \<and>
   mset (pushed
     [Call 0 (Push 7), Step 0, Step 0, Step 0, Step 0,
      Call 0 (Push 8), Step 0, Step 0, Call 2 Pop, Step 0, Step 0,
      Step 2, Step 2, Call 1 Pop, Step 2, Step 2, Step 2,
      Step 1, Step 1, Step 1, Step 1, Step 1]
     (init :: nat blocking_queue)) = {#7, 8#} \<and>
   mset (popped
     [Call 0 (Push 7), Step 0, Step 0, Step 0, Step 0,
      Call 0 (Push 8), Step 0, Step 0, Call 2 Pop, Step 0, Step 0,
      Step 2, Step 2, Call 1 Pop, Step 2, Step 2, Step 2,
      Step 1, Step 1, Step 1, Step 1, Step 1]
     (init :: nat blocking_queue)) = {#7, 8#} \<and>
   calls 0 [Push 1, Push 2, Pop, Push 1, Size, Pop, Pop] (init :: nat blocking_queue)
   = Some ([RVoid, RVoid, RElem 1, RVoid, RSize 2, RElem 2, RElem 1],
      \<lparr>m_queue = [], m_mutex = None, m_cv = {},
       threads = (\<lambda>_. Idle)(0 := Returned (RElem 1))\<rparr>) \<and>
   mset (pushes_of [Push 1, Push 2, Pop, Push 1, Size, Pop, Pop :: nat operation]) = {#1, 1, 2#} \<and>
   mset (elems_of [RVoid, RVoid, RElem 1, RVoid, RSize 2, RElem 2, RElem (1 :: nat)]) = {#1, 1, 2#}"
  using no_loss_no_duplication [of
     "[Call 0 (Push 7), Step 0, Step 0, Step 0, Step 0,
      Call 0 (Push 8), Step 0, Step 0, Call 2 Pop, Step 0, Step 0,
      Step 2, Step 2, Call 1 Pop, Step 2, Step 2, Step 2,
      Step 1, Step 1, Step 1, Step 1, Step 1]"
     "\<lparr>m_queue = [], m_mutex = None, m_cv = {},
      threads = (\<lambda>_. Idle)(0 := Returned RVoid, 1 := Returned (RElem 8), 2 := Returned (RElem 7))\<rparr>"
     0 "[Push 1, Push 2, Pop, Push 1, Size, Pop, Pop]"
     "[RVoid, RVoid, RElem 1, RVoid, RSize 2, RElem 2, RElem 1]"
     "\<lparr>m_queue = [], m_mutex = None, m_cv = {},
       threads = (\<lambda>_. Idle)(0 := Returned (RElem 1))\<rparr>"]
  by (simp add: init_def run_defs step_defs held_def inserted_def returned_def fun_upd_twist)


subsection \<open>Snapshots of a fresh queue and after \<open>k\<close> pushes\<close>

text \<open>
  C4 (snapshot consistency). On the queue as the constructor leaves it, \<^verbatim>\<open>empty()\<close> returns
  true and \<^verbatim>\<open>size()\<close> returns 0. When a thread has made exactly \<open>k > 0\<close> calls of \<^verbatim>\<open>push\<close>
  on a fresh queue, with no \<^verbatim>\<open>pop\<close>, a call of \<^verbatim>\<open>size()\<close> returns \<open>k\<close> and a call of
  \<^verbatim>\<open>empty()\<close> returns false.
\<close>

theorem snapshot_consistency:
  "map_option fst (call t Empty (init :: 'a blocking_queue)) = Some (RBool True) \<and>
   map_option fst (call t Size (init :: 'a blocking_queue)) = Some (RSize 0) \<and>
   (length es = k \<and> 0 < k \<longrightarrow>
      map_option fst (calls t (map Push es @ [Size]) (init :: 'a blocking_queue))
        = Some (replicate k RVoid @ [RSize k]) \<and>
      map_option fst (calls t (map Push es @ [Empty]) init)
        = Some (replicate k RVoid @ [RBool False]))"
proof -
  have e0: "map_option fst (call t Empty (init :: 'a blocking_queue)) = Some (RBool True)"
    by (simp add: call_Empty q_empty_def)
  have s0: "map_option fst (call t Size (init :: 'a blocking_queue)) = Some (RSize 0)"
    by (simp add: call_Size q_size_def)
  have after: "map_option fst (calls t (map Push es @ [Size]) (init :: 'a blocking_queue))
        = Some (replicate k RVoid @ [RSize k]) \<and>
      map_option fst (calls t (map Push es @ [Empty]) init)
        = Some (replicate k RVoid @ [RBool False])" if k: "length es = k" "0 < k"
  proof -
    have "ready t (init :: 'a blocking_queue)" "m_cv (init :: 'a blocking_queue) = {}"
      by simp_all
    from calls_Push [OF this, of es] obtain s1 where
      s1: "calls t (map Push es) init = Some (replicate (length es) RVoid, s1)"
        "m_queue s1 = es" "ready t s1"
      by auto
    from k have ne: "es \<noteq> []" by auto
    from s1 k ne show ?thesis
      by (simp add: calls_append call_Size call_Empty q_size_def q_empty_def split: list.splits)
  qed
  from e0 s0 after show ?thesis by blast
qed

theorem snapshot_consistency_witness:
  "length [10, 20, 30 :: nat] = 3 \<and> 0 < (3 :: nat) \<and>
   map_option fst (calls 0 (map Push [10, 20, 30 :: nat] @ [Size]) init)
     = Some [RVoid, RVoid, RVoid, RSize 3] \<and>
   map_option fst (calls 0 (map Push [10, 20, 30 :: nat] @ [Empty]) init)
     = Some [RVoid, RVoid, RVoid, RBool False]"
  using snapshot_consistency [of 0 "[10, 20, 30 :: nat]" 3]
  by (simp add: eval_nat_numeral)


subsection \<open>The two logical states\<close>




subsection \<open>\<^verbatim>\<open>pop\<close> removes only from a non-empty buffer\<close>

text \<open>
  C6 (removal only from a non-empty buffer). In every state that any schedule of any threads
  reaches from the fresh queue, no thread has read or popped the front of an empty buffer
  (the undefined behaviour is unreachable), and a thread of \<^verbatim>\<open>pop\<close> that is about to read
  the front, or about to remove it, owns the mutex and sees a non-empty buffer whose front is
  the element it has read. The wait is a loop over the predicate: a thread gets to the
  statement that reads the front only by its own step from the evaluation of the predicate,
  in a state where the buffer is non-empty; and a thread woken from the wait leaves the
  re-locking only by its own step to the evaluation of the predicate.
\<close>

theorem pop_removes_only_from_nonempty:
  "(exec sched init = Some s \<longrightarrow>
      threads s t \<noteq> Undefined_behaviour \<and>
      (threads s t = Pop_front \<longrightarrow> m_mutex s = Some t \<and> m_queue s \<noteq> []) \<and>
      (threads s t = Pop_pop elem \<longrightarrow>
         m_mutex s = Some t \<and> m_queue s \<noteq> [] \<and> q_front (m_queue s) = Some elem)) \<and>
   (step ev s1 = Some s2 \<and> threads s1 t \<noteq> Pop_front \<and> threads s2 t = Pop_front \<longrightarrow>
      ev = Step t \<and> threads s1 t = Pop_pred \<and> m_queue s1 \<noteq> []) \<and>
   (step ev s1 = Some s2 \<and> threads s1 t = Pop_relock \<and> threads s2 t \<noteq> Pop_relock \<longrightarrow>
      ev = Step t \<and> threads s2 t = Pop_pred)"
proof -
  have reach: "threads s t \<noteq> Undefined_behaviour \<and>
      (threads s t = Pop_front \<longrightarrow> m_mutex s = Some t \<and> m_queue s \<noteq> []) \<and>
      (threads s t = Pop_pop elem \<longrightarrow>
         m_mutex s = Some t \<and> m_queue s \<noteq> [] \<and> q_front (m_queue s) = Some elem)"
    if "exec sched init = Some s"
  proof -
    from consistent_init that have "consistent s" by (rule consistent_exec)
    then have "thread_ok s t" by (simp add: consistent_def)
    then show ?thesis
      by (auto simp: thread_ok_def q_empty_def q_front_def split: list.splits)
  qed
  have enter: "ev = Step t \<and> threads s1 t = Pop_pred \<and> m_queue s1 \<noteq> []"
    if "step ev s1 = Some s2" "threads s1 t \<noteq> Pop_front" "threads s2 t = Pop_front"
    using enters_removal [OF that] by (auto simp: q_empty_def)
  have wake: "ev = Step t \<and> threads s2 t = Pop_pred"
    if "step ev s1 = Some s2" "threads s1 t = Pop_relock" "threads s2 t \<noteq> Pop_relock"
    using leaves_relock [OF that] .
  from reach enter wake show ?thesis by blast
qed

theorem pop_removes_only_from_nonempty_witness:
  "exec [Call 0 Pop, Step 0, Step 0, Call 1 (Push 7), Step 1, Step 1, Notify 1 0, Step 1,
         Step 0, Step 0] (init :: nat blocking_queue)
     = Some \<lparr>m_queue = [7], m_mutex = Some 0, m_cv = {},
             threads = (\<lambda>_. Idle)(0 := Pop_front, 1 := Returned RVoid)\<rparr> \<and>
   exec [Call 0 Pop, Step 0, Step 0, Call 1 (Push 7), Step 1, Step 1, Notify 1 0, Step 1,
         Step 0, Step 0, Step 0] (init :: nat blocking_queue)
     = Some \<lparr>m_queue = [7], m_mutex = Some 0, m_cv = {},
             threads = (\<lambda>_. Idle)(0 := Pop_pop 7, 1 := Returned RVoid)\<rparr> \<and>
   step (Step 0) \<lparr>m_queue = [7 :: nat], m_mutex = Some 0, m_cv = {},
             threads = (\<lambda>_. Idle)(0 := Pop_pred, 1 := Returned RVoid)\<rparr>
     = Some \<lparr>m_queue = [7], m_mutex = Some 0, m_cv = {},
             threads = (\<lambda>_. Idle)(0 := Pop_front, 1 := Returned RVoid)\<rparr> \<and>
   step (Step 0) \<lparr>m_queue = [7 :: nat], m_mutex = None, m_cv = {},
             threads = (\<lambda>_. Idle)(0 := Pop_relock, 1 := Returned RVoid)\<rparr>
     = Some \<lparr>m_queue = [7], m_mutex = Some 0, m_cv = {},
             threads = (\<lambda>_. Idle)(0 := Pop_pred, 1 := Returned RVoid)\<rparr> \<and>
   q_front [7 :: nat] = Some 7"
  using pop_removes_only_from_nonempty [of
      "[Call 0 Pop, Step 0, Step 0, Call 1 (Push 7), Step 1, Step 1, Notify 1 0, Step 1,
         Step 0, Step 0]"
      "\<lparr>m_queue = [7 :: nat], m_mutex = Some 0, m_cv = {},
             threads = (\<lambda>_. Idle)(0 := Pop_front, 1 := Returned RVoid)\<rparr>"
      0 7 "Step 0"
      "\<lparr>m_queue = [7 :: nat], m_mutex = Some 0, m_cv = {},
             threads = (\<lambda>_. Idle)(0 := Pop_pred, 1 := Returned RVoid)\<rparr>"
      "\<lparr>m_queue = [7 :: nat], m_mutex = Some 0, m_cv = {},
             threads = (\<lambda>_. Idle)(0 := Pop_front, 1 := Returned RVoid)\<rparr>"]
    pop_removes_only_from_nonempty [of
      "[Call 0 Pop, Step 0, Step 0, Call 1 (Push 7), Step 1, Step 1, Notify 1 0, Step 1,
         Step 0, Step 0, Step 0]"
      "\<lparr>m_queue = [7 :: nat], m_mutex = Some 0, m_cv = {},
             threads = (\<lambda>_. Idle)(0 := Pop_pop 7, 1 := Returned RVoid)\<rparr>"
      0 7 "Step 0"
      "\<lparr>m_queue = [7 :: nat], m_mutex = None, m_cv = {},
             threads = (\<lambda>_. Idle)(0 := Pop_relock, 1 := Returned RVoid)\<rparr>"
      "\<lparr>m_queue = [7 :: nat], m_mutex = Some 0, m_cv = {},
             threads = (\<lambda>_. Idle)(0 := Pop_pred, 1 := Returned RVoid)\<rparr>"]
  by (simp add: init_def step_defs fun_upd_twist)


subsection \<open>What \<^verbatim>\<open>push\<close> and \<^verbatim>\<open>pop\<close> do to the rest of the buffer\<close>

text \<open>
  C8 (frame of push and pop). A call of \<^verbatim>\<open>push(elem)\<close> returns with the buffer it found,
  unchanged, followed by \<open>elem\<close> at the tail. A call of \<^verbatim>\<open>pop\<close> on a buffer with front \<open>x\<close>
  and rest \<open>xs\<close> returns \<open>x\<close> and leaves exactly \<open>xs\<close>. And in every state that any schedule
  of any threads reaches, an event changes the buffer in no other way: the buffer followed by
  what the event inserts is what the event removes followed by the buffer after it, where an
  event inserts something only as the insertion of a \<^verbatim>\<open>push\<close> and removes something only as
  the removal of a \<^verbatim>\<open>pop\<close>, and what is removed is the element that \<^verbatim>\<open>pop\<close> read as front.
\<close>

theorem push_pop_frame:
  "(ready t s \<and> m_cv s = {} \<longrightarrow>
      map_option (\<lambda>(r, s'). (r, m_queue s')) (call t (Push elem) s)
        = Some (RVoid, m_queue s @ [elem])) \<and>
   (ready t s \<and> m_queue s = x # xs \<longrightarrow>
      map_option (\<lambda>(r, s'). (r, m_queue s')) (call t Pop s) = Some (RElem x, xs)) \<and>
   (exec sched init = Some s1 \<and> step ev s1 = Some s2 \<longrightarrow>
      m_queue s1 @ inserted ev s1 = removed ev s1 @ m_queue s2)"
proof -
  have "m_queue s1 @ inserted ev s1 = removed ev s1 @ m_queue s2"
    if "exec sched init = Some s1" "step ev s1 = Some s2"
  proof -
    from consistent_init that(1) have "consistent s1" by (rule consistent_exec)
    then show ?thesis using that(2) by (rule buffer_step)
  qed
  then show ?thesis by (simp add: call_Push call_Pop)
qed

theorem push_pop_frame_witness:
  "ready 0 \<lparr>m_queue = [4, 5 :: nat], m_mutex = None, m_cv = {}, threads = (\<lambda>_. Idle)\<rparr> \<and>
   m_cv \<lparr>m_queue = [4, 5 :: nat], m_mutex = None, m_cv = {}, threads = (\<lambda>_. Idle)\<rparr> = {} \<and>
   m_queue \<lparr>m_queue = [4, 5 :: nat], m_mutex = None, m_cv = {}, threads = (\<lambda>_. Idle)\<rparr> = 4 # [5] \<and>
   map_option (\<lambda>(r, s'). (r, m_queue s'))
      (call 0 (Push 6) \<lparr>m_queue = [4, 5 :: nat], m_mutex = None, m_cv = {}, threads = (\<lambda>_. Idle)\<rparr>)
     = Some (RVoid, [4, 5, 6]) \<and>
   map_option (\<lambda>(r, s'). (r, m_queue s'))
      (call 0 Pop \<lparr>m_queue = [4, 5 :: nat], m_mutex = None, m_cv = {}, threads = (\<lambda>_. Idle)\<rparr>)
     = Some (RElem 4, [5]) \<and>
   exec [Call 0 (Push 7), Step 0, Step 0, Step 0, Step 0, Call 0 (Push 8), Step 0, Step 0,
         Step 0, Step 0, Call 1 Pop, Step 1, Step 1, Step 1] (init :: nat blocking_queue)
     = Some \<lparr>m_queue = [7, 8], m_mutex = Some 1, m_cv = {},
             threads = (\<lambda>_. Idle)(0 := Returned RVoid, 1 := Pop_pop 7)\<rparr> \<and>
   step (Step 1) \<lparr>m_queue = [7, 8 :: nat], m_mutex = Some 1, m_cv = {},
             threads = (\<lambda>_. Idle)(0 := Returned RVoid, 1 := Pop_pop 7)\<rparr>
     = Some \<lparr>m_queue = [8], m_mutex = Some 1, m_cv = {},
             threads = (\<lambda>_. Idle)(0 := Returned RVoid, 1 := Pop_unlock 7)\<rparr> \<and>
   removed (Step 1) \<lparr>m_queue = [7, 8 :: nat], m_mutex = Some 1, m_cv = {},
             threads = (\<lambda>_. Idle)(0 := Returned RVoid, 1 := Pop_pop 7)\<rparr> = [7]"
  using push_pop_frame [of 0
      "\<lparr>m_queue = [4, 5 :: nat], m_mutex = None, m_cv = {}, threads = (\<lambda>_. Idle)\<rparr>" 6 4 "[5]"
      "[Call 0 (Push 7), Step 0, Step 0, Step 0, Step 0, Call 0 (Push 8), Step 0, Step 0,
         Step 0, Step 0, Call 1 Pop, Step 1, Step 1, Step 1]"
      "\<lparr>m_queue = [7, 8 :: nat], m_mutex = Some 1, m_cv = {},
             threads = (\<lambda>_. Idle)(0 := Returned RVoid, 1 := Pop_pop 7)\<rparr>"
      "Step 1"
      "\<lparr>m_queue = [8 :: nat], m_mutex = Some 1, m_cv = {},
             threads = (\<lambda>_. Idle)(0 := Returned RVoid, 1 := Pop_unlock 7)\<rparr>"]
  by (simp add: ready_def outside_def init_def step_defs removed_def fun_upd_twist)


subsection \<open>The observers\<close>

text \<open>
  C9 (observers are pure snapshots). A call of \<^verbatim>\<open>empty()\<close> returns whether the buffer is
  empty and a call of \<^verbatim>\<open>size()\<close> returns its length, both computed from the buffer the call
  finds, and the state at the return is the state at the call but for the caller having
  returned: the buffer, its elements, their order and count, the mutex and the waiters are
  as before. Also under any interleaving, no step of a thread inside \<^verbatim>\<open>empty()\<close> or
  \<^verbatim>\<open>size()\<close> changes the buffer or the waiters.
\<close>

theorem observers_are_pure:
  "(ready t s \<longrightarrow>
      call t Empty s
        = Some (RBool (m_queue s = []),
                s\<lparr>threads := (threads s)(t := Returned (RBool (m_queue s = [])))\<rparr>) \<and>
      call t Size s
        = Some (RSize (length (m_queue s)),
                s\<lparr>threads := (threads s)(t := Returned (RSize (length (m_queue s))))\<rparr>)) \<and>
   (observing (threads s t) \<and> step (Step t) s = Some s' \<longrightarrow>
      m_queue s' = m_queue s \<and> m_cv s' = m_cv s)"
proof -
  have "q_empty (m_queue s) = (m_queue s = [])"
    by (simp add: q_empty_def split: list.splits)
  then show ?thesis
    using observing_step [of s t s']
    by (simp add: call_Empty call_Size goto_def q_size_def)
qed

theorem observers_are_pure_witness:
  "ready 0 \<lparr>m_queue = [4, 5 :: nat], m_mutex = None, m_cv = {}, threads = (\<lambda>_. Idle)\<rparr> \<and>
   call 0 Empty \<lparr>m_queue = [4, 5 :: nat], m_mutex = None, m_cv = {}, threads = (\<lambda>_. Idle)\<rparr>
     = Some (RBool False,
         \<lparr>m_queue = [4, 5], m_mutex = None, m_cv = {},
          threads = (\<lambda>_. Idle)(0 := Returned (RBool False))\<rparr>) \<and>
   call 0 Size \<lparr>m_queue = [4, 5 :: nat], m_mutex = None, m_cv = {}, threads = (\<lambda>_. Idle)\<rparr>
     = Some (RSize 2,
         \<lparr>m_queue = [4, 5], m_mutex = None, m_cv = {},
          threads = (\<lambda>_. Idle)(0 := Returned (RSize 2))\<rparr>) \<and>
   observing (threads \<lparr>m_queue = [4, 5 :: nat], m_mutex = Some 1, m_cv = {2},
                       threads = (\<lambda>_. Idle)(1 := Size_return, 2 := Pop_waiting)\<rparr> 1) \<and>
   step (Step 1) \<lparr>m_queue = [4, 5 :: nat], m_mutex = Some 1, m_cv = {2},
                   threads = (\<lambda>_. Idle)(1 := Size_return, 2 := Pop_waiting)\<rparr>
     = Some \<lparr>m_queue = [4, 5], m_mutex = Some 1, m_cv = {2},
             threads = (\<lambda>_. Idle)(1 := Size_unlock 2, 2 := Pop_waiting)\<rparr>"
  using observers_are_pure [of 0
      "\<lparr>m_queue = [4, 5 :: nat], m_mutex = None, m_cv = {}, threads = (\<lambda>_. Idle)\<rparr>"]
    observers_are_pure [of 1
      "\<lparr>m_queue = [4, 5 :: nat], m_mutex = Some 1, m_cv = {2},
        threads = (\<lambda>_. Idle)(1 := Size_return, 2 := Pop_waiting)\<rparr>"
      "\<lparr>m_queue = [4, 5], m_mutex = Some 1, m_cv = {2},
        threads = (\<lambda>_. Idle)(1 := Size_unlock 2, 2 := Pop_waiting)\<rparr>"]
  by (simp add: ready_def outside_def observing_def step_defs fun_upd_twist eval_nat_numeral)

text \<open>
  C10 (observer agreement). On the same buffer, \<^verbatim>\<open>m_queue.empty()\<close> is true exactly when
  \<^verbatim>\<open>m_queue.size()\<close> is 0; and in every state in which a thread can call them, \<^verbatim>\<open>size()\<close>
  returns some \<open>n\<close> and \<^verbatim>\<open>empty()\<close> returns true exactly when that \<open>n\<close> is 0.
\<close>

theorem observer_agreement:
  "(q_empty q \<longleftrightarrow> q_size q = 0) \<and>
   (ready t s \<longrightarrow>
      (\<exists>n. map_option fst (call t Size s) = Some (RSize n) \<and>
           map_option fst (call t Empty s) = Some (RBool (n = 0))))"
  by (simp add: call_Empty call_Size q_empty_def q_size_def split: list.splits)

theorem observer_agreement_witness:
  "ready 0 \<lparr>m_queue = [4, 5 :: nat], m_mutex = None, m_cv = {}, threads = (\<lambda>_. Idle)\<rparr> \<and>
   map_option fst
     (call 0 Size \<lparr>m_queue = [4, 5 :: nat], m_mutex = None, m_cv = {}, threads = (\<lambda>_. Idle)\<rparr>)
     = Some (RSize 2) \<and>
   map_option fst
     (call 0 Empty \<lparr>m_queue = [4, 5 :: nat], m_mutex = None, m_cv = {}, threads = (\<lambda>_. Idle)\<rparr>)
     = Some (RBool False)"
  using observer_agreement [of "[]" 0
      "\<lparr>m_queue = [4, 5 :: nat], m_mutex = None, m_cv = {}, threads = (\<lambda>_. Idle)\<rparr>"]
  by (simp add: ready_def outside_def call_Size call_Empty q_size_def q_empty_def)

end
